theory Spec2Isabelle
  imports Main "HOL-Library.Multiset" "HOL-Library.Sublist"
begin

section \<open>Data model\<close>

text \<open>
  A Python \<open>str\<close> is a sequence of Unicode code points; the default delimiter of the
  sequence checkers (U+241F) is one code point that does not fit in a byte, so a string is
  modelled as a list of code points rather than as a list of 8-bit characters.
\<close>

type_synonym codepoint = nat
type_synonym str = "codepoint list"

datatype error = KeyError | IndexError

text \<open>
  An event is dict-like: attribute key to value, the activity name being the value under
  the key \<open>concept:name\<close>. A trace is a list of events plus its own attribute dict.
\<close>

type_synonym event = "str \<rightharpoonup> str"

record trace =
  events :: "event list"
  attributes :: "str \<rightharpoonup> str"

definition concept_name :: str where
  "concept_name = [99, 111, 110, 99, 101, 112, 116, 58, 110, 97, 109, 101]"

definition default_delim :: str where
  "default_delim = [9247]"

section \<open>Reverse index\<close>

text \<open>
  \<open>for ind, event in enumerate(trace): rev_index[event[name]].append(ind)\<close> on a
  \<open>defaultdict(list)\<close>: a missing key starts from the empty list; \<open>event[name]\<close>
  raises \<open>KeyError\<close> when the event lacks the attribute.
\<close>

fun rev_index_loop ::
  "(nat \<times> event) list \<Rightarrow> str \<Rightarrow> (str \<rightharpoonup> nat list) \<Rightarrow> error + (str \<rightharpoonup> nat list)" where
  "rev_index_loop [] name rev_index = Inr rev_index"
| "rev_index_loop ((ind, event) # rest) name rev_index =
     (case event name of
        None \<Rightarrow> Inl KeyError
      | Some key \<Rightarrow>
          rev_index_loop rest name
            (rev_index(key \<mapsto> (case rev_index key of None \<Rightarrow> [] | Some l \<Rightarrow> l) @ [ind])))"

definition create_trace_reverse_index :: "trace \<Rightarrow> str \<Rightarrow> error + (str \<rightharpoonup> nat list)" where
  "create_trace_reverse_index tr name = rev_index_loop (enumerate 0 (events tr)) name Map.empty"

section \<open>Declarative constraints\<close>

text \<open>\<open>l[-1]\<close> and \<open>l[0]\<close> raise \<open>IndexError\<close> on an empty list.\<close>

definition check_response_constraint :: "(str \<rightharpoonup> nat list) \<Rightarrow> str \<Rightarrow> str \<Rightarrow> error + int" where
  "check_response_constraint rev_trace a b =
     (case rev_trace a of
        None \<Rightarrow> Inr 1
      | Some as \<Rightarrow>
          (case rev_trace b of
             None \<Rightarrow> Inr 0
           | Some bs \<Rightarrow>
               if as = [] \<or> bs = [] then Inl IndexError
               else if last bs > last as then Inr 2
               else Inr 0))"

definition check_precedence_constraint :: "(str \<rightharpoonup> nat list) \<Rightarrow> str \<Rightarrow> str \<Rightarrow> error + int" where
  "check_precedence_constraint rev_trace a b =
     (case rev_trace b of
        None \<Rightarrow> Inr 1
      | Some bs \<Rightarrow>
          (case rev_trace a of
             None \<Rightarrow> Inr 0
           | Some as \<Rightarrow>
               if as = [] \<or> bs = [] then Inl IndexError
               else if hd as < hd bs then Inr 2
               else Inr 0))"

section \<open>Sequence checkers\<close>

text \<open>\<open>[event[name] for event in trace]\<close>.\<close>

fun event_names :: "event list \<Rightarrow> str \<Rightarrow> error + str list" where
  "event_names [] name = Inr []"
| "event_names (event # rest) name =
     (case event name of
        None \<Rightarrow> Inl KeyError
      | Some n \<Rightarrow> (case event_names rest name of Inl e \<Rightarrow> Inl e | Inr ns \<Rightarrow> Inr (n # ns)))"

text \<open>\<open>delim.join(parts)\<close>.\<close>

fun join :: "'a list \<Rightarrow> 'a list list \<Rightarrow> 'a list" where
  "join delim [] = []"
| "join delim [x] = x"
| "join delim (x # y # ys) = x @ delim @ join delim (y # ys)"

text \<open>
  \<open>s.count(sub)\<close>: the number of non-overlapping occurrences of \<open>sub\<close> in \<open>s\<close>, found
  from left to right, the search resuming behind each occurrence; \<open>len(s) + 1\<close> for the
  empty \<open>sub\<close>.
\<close>

function count_from :: "'a list \<Rightarrow> 'a list \<Rightarrow> nat" where
  "count_from s sub =
     (if sub = [] \<or> length s < length sub then 0
      else if take (length sub) s = sub then 1 + count_from (drop (length sub) s) sub
      else count_from (tl s) sub)"
  by pat_completeness auto
termination
proof (relation "measure (\<lambda>(s, sub). length s)")
  fix s sub :: "'a list"
  assume "\<not> (sub = [] \<or> length s < length sub)"
  then have "0 < length sub" "0 < length s"
    by auto
  then show "((drop (length sub) s, sub), (s, sub)) \<in> measure (\<lambda>(s, sub). length s)"
    and "((tl s, sub), (s, sub)) \<in> measure (\<lambda>(s, sub). length s)"
    by auto
qed simp

declare count_from.simps [simp del]

definition str_count :: "'a list \<Rightarrow> 'a list \<Rightarrow> nat" where
  "str_count s sub = (if sub = [] then length s + 1 else count_from s sub)"

definition check_sequence_strict_order ::
  "trace \<Rightarrow> str list \<Rightarrow> int \<Rightarrow> str \<Rightarrow> str \<Rightarrow> error + int" where
  "check_sequence_strict_order tr sequence cnt hack_delim name =
     (if int (length (events tr)) < cnt then Inr 0
      else
        (case event_names (events tr) name of
           Inl e \<Rightarrow> Inl e
         | Inr ns \<Rightarrow>
             (let search_string = join hack_delim ns;
                  search_seq = join hack_delim sequence;
                  seq_count = str_count search_string search_seq
              in if int seq_count \<ge> cnt then Inr 2 else Inr 0)))"

text \<open>
  The interleaved checkers. \<open>copy_seq.remove(name)\<close> deletes the first occurrence and
  raises when there is none, which the bare \<open>except\<close> turns into \<open>continue\<close>.
\<close>

fun nonstrict_interleaved_loop ::
  "event list \<Rightarrow> str list \<Rightarrow> str list \<Rightarrow> nat \<Rightarrow> error + nat" where
  "nonstrict_interleaved_loop [] sequence copy_seq count_subsequences = Inr count_subsequences"
| "nonstrict_interleaved_loop (event # rest) sequence copy_seq count_subsequences =
     (case event concept_name of
        None \<Rightarrow> Inl KeyError
      | Some name \<Rightarrow>
          if name \<notin> set sequence then
            nonstrict_interleaved_loop rest sequence copy_seq count_subsequences
          else if name \<notin> set copy_seq then
            nonstrict_interleaved_loop rest sequence copy_seq count_subsequences
          else if length (remove1 name copy_seq) = 0 then
            nonstrict_interleaved_loop rest sequence sequence (count_subsequences + 1)
          else
            nonstrict_interleaved_loop rest sequence (remove1 name copy_seq) count_subsequences)"

definition check_sequence_nonstrict_order_interleaved ::
  "trace \<Rightarrow> str list \<Rightarrow> int \<Rightarrow> error + int" where
  "check_sequence_nonstrict_order_interleaved tr sequence cnt =
     (case nonstrict_interleaved_loop (events tr) sequence sequence 0 of
        Inl e \<Rightarrow> Inl e
      | Inr count_subsequences \<Rightarrow> if int count_subsequences \<ge> cnt then Inr 2 else Inr 0)"

text \<open>\<open>copy_seq[0]\<close> raises \<open>IndexError\<close> on an empty list.\<close>

fun strict_interleaved_loop ::
  "event list \<Rightarrow> str list \<Rightarrow> str list \<Rightarrow> nat \<Rightarrow> error + nat" where
  "strict_interleaved_loop [] sequence copy_seq count_subsequences = Inr count_subsequences"
| "strict_interleaved_loop (event # rest) sequence copy_seq count_subsequences =
     (case event concept_name of
        None \<Rightarrow> Inl KeyError
      | Some name \<Rightarrow>
          if name \<notin> set sequence then
            strict_interleaved_loop rest sequence copy_seq count_subsequences
          else
            (case copy_seq of
               [] \<Rightarrow> Inl IndexError
             | c # cs \<Rightarrow>
                 (let copy_seq' = (if name = c then cs else copy_seq)
                  in if length copy_seq' = 0 then
                       strict_interleaved_loop rest sequence sequence (count_subsequences + 1)
                     else
                       strict_interleaved_loop rest sequence copy_seq' count_subsequences)))"

definition check_sequence_strict_order_interleaved ::
  "trace \<Rightarrow> str list \<Rightarrow> int \<Rightarrow> error + int" where
  "check_sequence_strict_order_interleaved tr sequence cnt =
     (case strict_interleaved_loop (events tr) sequence sequence 0 of
        Inl e \<Rightarrow> Inl e
      | Inr count_subsequences \<Rightarrow> if int count_subsequences \<ge> cnt then Inr 2 else Inr 0)"

text \<open>
  \<open>itertools.permutations(xs)\<close>: every ordering of the positions of \<open>xs\<close>, in
  lexicographic order of the positions.
\<close>

fun permutations :: "'a list \<Rightarrow> 'a list list" where
  "permutations [] = [[]]"
| "permutations (x # xs) =
     concat (map (\<lambda>i. map ((#) ((x # xs) ! i))
                          (permutations (take i (x # xs) @ drop (Suc i) (x # xs))))
                 [0..<length (x # xs)])"

text \<open>
  The window scan of one permutation:
  \<open>for i in range(len(search_list) - len(sequence)): if tuple(search_list[i : i + len(sequence)]) == perm_seq\<close>.
  A negative bound gives the empty range, as the truncating subtraction does here.
\<close>

definition window_hits :: "str list \<Rightarrow> nat \<Rightarrow> str list \<Rightarrow> nat list" where
  "window_hits search_list m perm_seq =
     filter (\<lambda>i. take m (drop i search_list) = perm_seq) [0..<length search_list - m]"

fun perm_loop ::
  "str list list \<Rightarrow> str list set \<Rightarrow> str list \<Rightarrow> nat \<Rightarrow> nat list \<Rightarrow> nat list" where
  "perm_loop [] tested_permutations search_list m found_indices = found_indices"
| "perm_loop (perm_seq # rest) tested_permutations search_list m found_indices =
     (if perm_seq \<in> tested_permutations then
        perm_loop rest tested_permutations search_list m found_indices
      else
        perm_loop rest (insert perm_seq tested_permutations) search_list m
          (found_indices @ window_hits search_list m perm_seq))"

definition find_indices :: "str list \<Rightarrow> str list \<Rightarrow> nat list" where
  "find_indices search_list sequence =
     perm_loop (permutations sequence) {} search_list (length sequence) []"

text \<open>The greedy filter over \<open>found_indices[1:]\<close>.\<close>

fun filter_loop :: "nat list \<Rightarrow> nat \<Rightarrow> nat list \<Rightarrow> nat \<Rightarrow> nat list" where
  "filter_loop [] m filtered_indices next_min_index = filtered_indices"
| "filter_loop (next_ind # rest) m filtered_indices next_min_index =
     (if next_ind \<ge> next_min_index then
        filter_loop rest m (filtered_indices @ [next_ind]) (next_ind + m)
      else filter_loop rest m filtered_indices next_min_index)"

text \<open>
  \<open>sorted(list(set(found_indices)))\<close>, then the filter seeded with \<open>found_indices[0]\<close>,
  which raises \<open>IndexError\<close> on an empty list.
\<close>

definition filter_overlaps :: "nat list \<Rightarrow> nat \<Rightarrow> error + nat list" where
  "filter_overlaps found_indices m =
     (case sort (remdups found_indices) of
        [] \<Rightarrow> Inl IndexError
      | first # rest \<Rightarrow> Inr (filter_loop rest m [first] (first + m)))"

definition check_sequence_nonstrict_order ::
  "trace \<Rightarrow> str list \<Rightarrow> int \<Rightarrow> str \<Rightarrow> str \<Rightarrow> error + int" where
  "check_sequence_nonstrict_order tr sequence cnt hack_delim name =
     (if int (length (events tr)) < cnt then Inr 0
      else
        (case event_names (events tr) name of
           Inl e \<Rightarrow> Inl e
         | Inr search_list \<Rightarrow>
             (let found_indices = find_indices search_list sequence
              in if int (length found_indices) < cnt then Inr 0
                 else
                   (case filter_overlaps found_indices (length sequence) of
                      Inl e \<Rightarrow> Inl e
                    | Inr filtered_indices \<Rightarrow>
                        if int (length filtered_indices) \<ge> cnt then Inr 2 else Inr 0))))"

section \<open>Attribute checkers\<close>

text \<open>
  A rule dict is an association list in iteration order. The loop over its items returns
  0 at the first pair that does not match (\<open>None\<close> here), else it counts the matches.
  Attribute values and expected values are strings, on which \<open>str\<close> is the identity.
\<close>

fun match_loop :: "(str \<times> str) list \<Rightarrow> (str \<rightharpoonup> str) \<Rightarrow> nat \<Rightarrow> nat option" where
  "match_loop [] attrs matched_count = Some matched_count"
| "match_loop ((k, v) # rest) attrs matched_count =
     (if attrs k \<noteq> None \<and> attrs k = Some v then match_loop rest attrs (matched_count + 1)
      else None)"

definition check_trace_attribute :: "trace \<Rightarrow> (str \<times> str) list \<Rightarrow> int" where
  "check_trace_attribute tr attribute_value_dict =
     (case match_loop attribute_value_dict (attributes tr) 0 of
        None \<Rightarrow> 0
      | Some matched_count \<Rightarrow> if matched_count = length attribute_value_dict then 2 else 0)"

text \<open>
  \<open>for k in attribute_value_dict.keys(): if k in event and k not in event_attributes:
  event_attributes[k] = str(event[k])\<close>, for one event and then for the events in order.
\<close>

fun collect_keys :: "str list \<Rightarrow> event \<Rightarrow> (str \<rightharpoonup> str) \<Rightarrow> (str \<rightharpoonup> str)" where
  "collect_keys [] event event_attributes = event_attributes"
| "collect_keys (k # ks) event event_attributes =
     (case event k of
        None \<Rightarrow> collect_keys ks event event_attributes
      | Some val \<Rightarrow>
          if event_attributes k = None then collect_keys ks event (event_attributes(k \<mapsto> val))
          else collect_keys ks event event_attributes)"

fun collect_events :: "event list \<Rightarrow> str list \<Rightarrow> (str \<rightharpoonup> str) \<Rightarrow> (str \<rightharpoonup> str)" where
  "collect_events [] ks event_attributes = event_attributes"
| "collect_events (event # rest) ks event_attributes =
     collect_events rest ks (collect_keys ks event event_attributes)"

definition check_trace_event_attributes :: "trace \<Rightarrow> (str \<times> str) list \<Rightarrow> int" where
  "check_trace_event_attributes tr attribute_value_dict =
     (let event_attributes = collect_events (events tr) (map fst attribute_value_dict) Map.empty
      in case match_loop attribute_value_dict event_attributes 0 of
           None \<Rightarrow> 0
         | Some matched_count \<Rightarrow> if matched_count = length attribute_value_dict then 2 else 0)"

section \<open>Auxiliary notions\<close>

text \<open>The positions of \<open>a\<close> in a list whose first element has position \<open>k\<close>.\<close>

fun positions_from :: "nat \<Rightarrow> 'a list \<Rightarrow> 'a \<Rightarrow> nat list" where
  "positions_from k [] a = []"
| "positions_from k (n # ns) a =
     (if n = a then k # positions_from (Suc k) ns a else positions_from (Suc k) ns a)"

text \<open>
  All starts of windows of pattern length whose names are the pattern's up to order, ascending,
  and the earliest-first greedy selection of non-overlapping windows from a list of starts.
\<close>

definition matching_windows :: "str list \<Rightarrow> str list \<Rightarrow> nat list" where
  "matching_windows ns sequence =
     filter (\<lambda>i. mset (take (length sequence) (drop i ns)) = mset sequence)
       [0..<length ns + 1 - length sequence]"

fun greedy_select :: "nat \<Rightarrow> nat \<Rightarrow> nat list \<Rightarrow> nat list" where
  "greedy_select m next_min [] = []"
| "greedy_select m next_min (i # is) =
     (if next_min \<le> i then i # greedy_select m (i + m) is else greedy_select m next_min is)"

text \<open>An occurrence of \<open>sub\<close> in \<open>s\<close> that starts at position \<open>q\<close>.\<close>

definition occurs_at :: "'a list \<Rightarrow> 'a list \<Rightarrow> nat \<Rightarrow> bool" where
  "occurs_at sub s q \<longleftrightarrow> take (length sub) (drop q s) = sub"

text \<open>
  Names that are non-empty and free of the delimiter code point, and trace names none of
  which properly ends with the first name of the pattern, properly starts with its last
  name or, for a one-name pattern, properly contains that name.
\<close>

definition plain_names :: "codepoint \<Rightarrow> str list \<Rightarrow> bool" where
  "plain_names c ns \<longleftrightarrow> (\<forall>t\<in>set ns. t \<noteq> [] \<and> c \<notin> set t)"

definition exact_names :: "str list \<Rightarrow> str list \<Rightarrow> bool" where
  "exact_names sequence ns \<longleftrightarrow>
     (\<forall>t\<in>set ns.
        (suffix (hd sequence) t \<longrightarrow> t = hd sequence) \<and>
        (prefix (last sequence) t \<longrightarrow> t = last sequence) \<and>
        (length sequence = 1 \<longrightarrow> sublist (hd sequence) t \<longrightarrow> t = hd sequence))"

text \<open>The first value recorded under a key by the events of a trace, in trace order.\<close>

definition first_value :: "event list \<Rightarrow> str \<Rightarrow> str option" where
  "first_value es k = (case find (\<lambda>e. e k \<noteq> None) es of None \<Rightarrow> None | Some e \<Rightarrow> e k)"

text \<open>
  Concrete inputs for the evaluated instances: the activity names \<open>A\<close>, \<open>B\<close>, \<open>X\<close> and
  \<open>XA\<close>, an attribute key with two values, an event that carries only its name, one that
  carries one more attribute, and a trace without trace attributes.
\<close>

definition act_A :: str where "act_A = [65]"
definition act_B :: str where "act_B = [66]"
definition act_X :: str where "act_X = [88]"
definition act_XA :: str where "act_XA = [88, 65]"
definition key_k :: str where "key_k = [107]"
definition val_u :: str where "val_u = [117]"
definition val_v :: str where "val_v = [118]"

definition named :: "str \<Rightarrow> event" where
  "named n = [concept_name \<mapsto> n]"

definition named_with :: "str \<Rightarrow> str \<Rightarrow> str \<Rightarrow> event" where
  "named_with n k v = [concept_name \<mapsto> n, k \<mapsto> v]"

definition trace_of :: "event list \<Rightarrow> trace" where
  "trace_of es = \<lparr>events = es, attributes = Map.empty\<rparr>"

lemmas example_defs =
  act_A_def act_B_def act_X_def act_XA_def key_k_def val_u_def val_v_def
  named_def named_with_def trace_of_def concept_name_def default_delim_def

section \<open>The reverse index and the declarative constraints\<close>

lemma positions_from_absent: "a \<notin> set ns \<Longrightarrow> positions_from k ns a = []"
  by (induction ns arbitrary: k) auto

lemma positions_from_enumerate:
  "positions_from k ns a = map fst (filter (\<lambda>p. snd p = a) (enumerate k ns))"
  by (induction ns arbitrary: k) auto

lemma set_positions_from:
  "set (positions_from k ns a) = {i. k \<le> i \<and> i < k + length ns \<and> ns ! (i - k) = a}"
  by (auto simp: positions_from_enumerate in_set_enumerate_eq image_iff)

lemma sorted_positions_from: "sorted_wrt (<) (positions_from k ns a)"
  by (induction ns arbitrary: k) (auto simp: set_positions_from)

lemma rev_index_loop_eq:
  "event_names es name = Inr ns \<Longrightarrow>
   rev_index_loop (enumerate k es) name m0 =
     Inr (\<lambda>a. if a \<in> set ns
               then Some ((case m0 a of None \<Rightarrow> [] | Some l \<Rightarrow> l) @ positions_from k ns a)
               else m0 a)"
proof (induction es arbitrary: k m0 ns)
  case Nil
  then show ?case by simp
next
  case (Cons e es)
  from Cons.prems obtain n ns' where e: "e name = Some n"
    and ns': "event_names es name = Inr ns'" and ns: "ns = n # ns'"
    by (auto split: option.splits sum.splits)
  show ?case
    unfolding ns
    by (simp add: e Cons.IH [OF ns'] positions_from_absent fun_eq_iff)
qed

lemma sorted_le_last: "sorted xs \<Longrightarrow> y \<in> set xs \<Longrightarrow> y \<le> last xs"
  by (induction xs) auto

lemma last_sorted_Max: "sorted (xs :: nat list) \<Longrightarrow> xs \<noteq> [] \<Longrightarrow> last xs = Max (set xs)"
  by (rule Max_eqI [symmetric]) (auto intro: sorted_le_last)

lemma hd_sorted_Min: "sorted (xs :: nat list) \<Longrightarrow> xs \<noteq> [] \<Longrightarrow> hd xs = Min (set xs)"
  by (rule Min_eqI [symmetric]) (cases xs; auto)+

lemma positions_from_nonempty: "a \<in> set ns \<Longrightarrow> positions_from k ns a \<noteq> []"
  by (induction ns arbitrary: k) auto

lemma create_trace_reverse_index_eq:
  assumes "event_names (events tr) name = Inr ns"
  shows "create_trace_reverse_index tr name =
           Inr (\<lambda>a. if a \<in> set ns then Some (positions_from 0 ns a) else None)"
  by (simp add: create_trace_reverse_index_def rev_index_loop_eq [OF assms] cong: if_cong)

text \<open>
  Claim C8. For every trace whose events carry the indexed attribute (the empty trace
  included), \<open>create_trace_reverse_index\<close> returns a mapping whose keys are exactly the
  activity names occurring in the trace, each mapped to the strictly ascending list of
  exactly the positions at which it occurs; a name that does not occur is absent.
\<close>

theorem reverse_index_positions:
  assumes "event_names (events tr) name = Inr ns"
  shows "\<exists>rev_index. create_trace_reverse_index tr name = Inr rev_index \<and>
           dom rev_index = set ns \<and>
           (\<forall>a\<in>set ns. \<exists>ps. rev_index a = Some ps \<and> sorted_wrt (<) ps \<and>
              set ps = {i. i < length ns \<and> ns ! i = a})"
proof -
  let ?m = "\<lambda>a. if a \<in> set ns then Some (positions_from 0 ns a) else None"
  have "dom ?m = set ns"
    by (auto simp: dom_def)
  moreover have "\<forall>a\<in>set ns. \<exists>ps. ?m a = Some ps \<and> sorted_wrt (<) ps \<and>
      set ps = {i. i < length ns \<and> ns ! i = a}"
    by (simp add: sorted_positions_from set_positions_from)
  ultimately show ?thesis
    using create_trace_reverse_index_eq [OF assms] by blast
qed

theorem reverse_index_positions_witness:
  "event_names (events (trace_of [named act_A, named act_B, named act_A])) concept_name
     = Inr [act_A, act_B, act_A] \<and>
   (\<exists>rev_index.
      create_trace_reverse_index (trace_of [named act_A, named act_B, named act_A]) concept_name
        = Inr rev_index \<and>
      dom rev_index = set [act_A, act_B, act_A] \<and>
      (\<forall>a\<in>set [act_A, act_B, act_A]. \<exists>ps. rev_index a = Some ps \<and> sorted_wrt (<) ps \<and>
         set ps = {i. i < length [act_A, act_B, act_A] \<and> [act_A, act_B, act_A] ! i = a}))"
proof -
  have h: "event_names (events (trace_of [named act_A, named act_B, named act_A])) concept_name
      = Inr [act_A, act_B, act_A]"
    by (simp add: trace_of_def named_def)
  from reverse_index_positions [OF h] h show ?thesis
    by blast
qed

text \<open>
  Claim C3. On the reverse index of a trace, Response(a, b) returns 1 when \<open>a\<close> never
  occurs, 0 when \<open>a\<close> occurs but \<open>b\<close> never does, and otherwise 2 iff the last
  position of \<open>b\<close> exceeds the last position of \<open>a\<close>, else 0. Precedence(a, b)
  returns 1 when \<open>b\<close> never occurs, 0 when \<open>b\<close> occurs but \<open>a\<close> never does, and
  otherwise 2 iff the first position of \<open>a\<close> precedes the first position of \<open>b\<close>,
  else 0.
\<close>

theorem response_precedence_verdicts:
  assumes "event_names (events tr) name = Inr ns"
    and "create_trace_reverse_index tr name = Inr rev_trace"
  shows "check_response_constraint rev_trace a b =
           Inr (if a \<notin> set ns then 1
                else if b \<notin> set ns then 0
                else if Max {i. i < length ns \<and> ns ! i = a} < Max {i. i < length ns \<and> ns ! i = b}
                     then 2 else 0) \<and>
         check_precedence_constraint rev_trace a b =
           Inr (if b \<notin> set ns then 1
                else if a \<notin> set ns then 0
                else if Min {i. i < length ns \<and> ns ! i = a} < Min {i. i < length ns \<and> ns ! i = b}
                     then 2 else 0)"
proof -
  have rev: "rev_trace = (\<lambda>a. if a \<in> set ns then Some (positions_from 0 ns a) else None)"
    using create_trace_reverse_index_eq [OF assms(1)] assms(2) by simp
  have mx: "last (positions_from 0 ns x) = Max {i. i < length ns \<and> ns ! i = x}"
    and mn: "hd (positions_from 0 ns x) = Min {i. i < length ns \<and> ns ! i = x}"
    if "x \<in> set ns" for x
    using last_sorted_Max [OF strict_sorted_imp_sorted [OF sorted_positions_from] positions_from_nonempty [OF that], of 0]
      hd_sorted_Min [OF strict_sorted_imp_sorted [OF sorted_positions_from] positions_from_nonempty [OF that], of 0]
    by (simp_all add: set_positions_from)
  show ?thesis
    by (simp add: check_response_constraint_def check_precedence_constraint_def rev
        positions_from_nonempty mx mn)
qed


theorem response_precedence_verdicts_witness:
  "event_names (events (trace_of [named act_A, named act_B])) concept_name = Inr [act_A, act_B] \<and>
   create_trace_reverse_index (trace_of [named act_A, named act_B]) concept_name
     = Inr [act_A \<mapsto> [0], act_B \<mapsto> [1]] \<and>
   check_response_constraint [act_A \<mapsto> [0], act_B \<mapsto> [1]] act_A act_B = Inr 2 \<and>
   check_precedence_constraint [act_A \<mapsto> [0], act_B \<mapsto> [1]] act_A act_B = Inr 2 \<and>
   Max {i. i < length [act_A, act_B] \<and> [act_A, act_B] ! i = act_A}
     < Max {i. i < length [act_A, act_B] \<and> [act_A, act_B] ! i = act_B} \<and>
   Min {i. i < length [act_A, act_B] \<and> [act_A, act_B] ! i = act_A}
     < Min {i. i < length [act_A, act_B] \<and> [act_A, act_B] ! i = act_B}"
proof -
  let ?tr = "trace_of [named act_A, named act_B]"
  have h1: "event_names (events ?tr) concept_name = Inr [act_A, act_B]"
    by (simp add: trace_of_def named_def)
  have h2: "create_trace_reverse_index ?tr concept_name = Inr [act_A \<mapsto> [0], act_B \<mapsto> [1]]"
    by (simp add: create_trace_reverse_index_def trace_of_def named_def act_A_def act_B_def)
  have v: "check_response_constraint [act_A \<mapsto> [0], act_B \<mapsto> [1]] act_A act_B = Inr 2"
    "check_precedence_constraint [act_A \<mapsto> [0], act_B \<mapsto> [1]] act_A act_B = Inr 2"
    by (simp_all add: check_response_constraint_def check_precedence_constraint_def
        act_A_def act_B_def)
  from response_precedence_verdicts [OF h1 h2, of act_A act_B] v h1 h2 show ?thesis
    by (simp add: act_A_def act_B_def split: if_splits)
qed

section \<open>Event attributes\<close>

lemma first_value_simps [simp]:
  "first_value [] k = None"
  "first_value (e # es) k = (case e k of None \<Rightarrow> first_value es k | Some v \<Rightarrow> Some v)"
  by (auto simp: first_value_def split: option.splits)

lemma first_value_Some_iff:
  "first_value es k = Some v \<longleftrightarrow>
     (\<exists>i<length es. (es ! i) k = Some v \<and> (\<forall>j<i. (es ! j) k = None))"
proof -
  have "first_value es k = Some v \<longleftrightarrow> (\<exists>e. find (\<lambda>e. e k \<noteq> None) es = Some e \<and> e k = Some v)"
    by (auto simp: first_value_def split: option.splits)
  also have "\<dots> \<longleftrightarrow> (\<exists>i<length es. (es ! i) k = Some v \<and> (\<forall>j<i. (es ! j) k = None))"
    by (auto simp: find_Some_iff)
  finally show ?thesis .
qed

lemma collect_keys_apply:
  "collect_keys ks e m k = (if k \<in> set ks \<and> m k = None then e k else m k)"
  by (induction ks arbitrary: m) (auto split: option.splits)

lemma collect_events_apply:
  "collect_events es ks m k =
     (if k \<in> set ks then (case m k of None \<Rightarrow> first_value es k | Some v \<Rightarrow> Some v) else m k)"
  by (induction es arbitrary: m) (auto simp: collect_keys_apply split: option.splits)

lemma match_loop_eq:
  "match_loop avd attrs c =
     (if \<forall>(k, v)\<in>set avd. attrs k = Some v then Some (c + length avd) else None)"
  by (induction avd arbitrary: c) auto

text \<open>
  Claim C9. \<open>check_trace_event_attributes\<close> records, for each requested key, the value
  of the first event in trace order that carries the key (later values for the key are
  ignored), and returns 2 iff every requested key was recorded with exactly the expected
  value, else 0.
\<close>

theorem event_attributes_first_value:
  "(let recorded = collect_events (events tr) (map fst attribute_value_dict) Map.empty
    in (\<forall>k\<in>fst ` set attribute_value_dict. \<forall>v.
          recorded k = Some v \<longleftrightarrow>
            (\<exists>i<length (events tr). (events tr ! i) k = Some v \<and> (\<forall>j<i. (events tr ! j) k = None))) \<and>
       check_trace_event_attributes tr attribute_value_dict =
         (if \<forall>(k, v)\<in>set attribute_value_dict. recorded k = Some v then 2 else 0))"
proof -
  have "collect_events (events tr) (map fst attribute_value_dict) Map.empty k = first_value (events tr) k"
    if "k \<in> fst ` set attribute_value_dict" for k
    using that by (simp add: collect_events_apply)
  then show ?thesis
    by (simp add: Let_def check_trace_event_attributes_def match_loop_eq first_value_Some_iff)
qed


theorem event_attributes_first_value_witness:
  "check_trace_event_attributes
      (trace_of [named act_A, named_with act_B key_k val_u, named_with act_A key_k val_v])
      [(key_k, val_u)] = 2 \<and>
   collect_events [named act_A, named_with act_B key_k val_u, named_with act_A key_k val_v]
      [key_k] Map.empty key_k = Some val_u \<and>
   (let recorded = collect_events
          (events (trace_of [named act_A, named_with act_B key_k val_u, named_with act_A key_k val_v]))
          (map fst [(key_k, val_u)]) Map.empty
    in (\<forall>k\<in>fst ` set [(key_k, val_u)]. \<forall>v.
          recorded k = Some v \<longleftrightarrow>
            (\<exists>i<length (events (trace_of [named act_A, named_with act_B key_k val_u,
                                            named_with act_A key_k val_v])).
                (events (trace_of [named act_A, named_with act_B key_k val_u,
                                   named_with act_A key_k val_v]) ! i) k = Some v \<and>
                (\<forall>j<i. (events (trace_of [named act_A, named_with act_B key_k val_u,
                                           named_with act_A key_k val_v]) ! j) k = None))) \<and>
       check_trace_event_attributes
         (trace_of [named act_A, named_with act_B key_k val_u, named_with act_A key_k val_v])
         [(key_k, val_u)] =
         (if \<forall>(k, v)\<in>set [(key_k, val_u)]. recorded k = Some v then 2 else 0))"
proof -
  have v: "check_trace_event_attributes
      (trace_of [named act_A, named_with act_B key_k val_u, named_with act_A key_k val_v])
      [(key_k, val_u)] = 2"
    by (simp add: check_trace_event_attributes_def example_defs)
  have r: "collect_events [named act_A, named_with act_B key_k val_u, named_with act_A key_k val_v]
      [key_k] Map.empty key_k = Some val_u"
    by (simp add: example_defs)
  show ?thesis
    by (intro conjI v r event_attributes_first_value)
qed

section \<open>Empty patterns and empty rule maps\<close>

lemma event_names_length: "event_names es name = Inr ns \<Longrightarrow> length ns = length es"
  by (induction es arbitrary: ns) (auto split: option.splits sum.splits)

lemma nonstrict_interleaved_loop_empty:
  "event_names es concept_name = Inr ns \<Longrightarrow> nonstrict_interleaved_loop es [] copy_seq c = Inr c"
  by (induction es arbitrary: ns) (auto split: option.splits sum.splits)

lemma strict_interleaved_loop_empty:
  "event_names es concept_name = Inr ns \<Longrightarrow> strict_interleaved_loop es [] copy_seq c = Inr c"
  by (induction es arbitrary: ns) (auto split: option.splits sum.splits)

lemma length_join_ge: "delim \<noteq> [] \<Longrightarrow> length xs \<le> length (join delim xs) + 1"
proof (induction delim xs rule: join.induct)
  case (3 delim x y ys)
  then show ?case
    by (cases delim) auto
qed simp_all

lemma strict_order_empty:
  assumes "event_names (events tr) name = Inr ns" and "hack_delim \<noteq> []"
  shows "check_sequence_strict_order tr [] cnt hack_delim name =
           Inr (if cnt \<le> int (length (events tr)) then 2 else 0)"
proof -
  have "int (length ns) \<le> int (length (join hack_delim ns) + 1)"
    using length_join_ge [OF assms(2), of ns] by linarith
  then show ?thesis
    using assms(1) event_names_length [OF assms(1)]
    by (auto simp: check_sequence_strict_order_def str_count_def)
qed

lemma strict_order_empty_verdict:
  assumes "event_names (events tr) name = Inr ns"
  shows "check_sequence_strict_order tr [] cnt hack_delim name \<in> {Inr 0, Inr 2}"
  using assms by (auto simp: check_sequence_strict_order_def Let_def)

lemma filter_loop_zero:
  "sorted (nm # xs) \<Longrightarrow> filter_loop xs 0 acc nm = acc @ xs"
  by (induction xs arbitrary: acc nm) auto

lemma find_indices_empty: "find_indices search_list [] = [0..<length search_list]"
  by (simp add: find_indices_def window_hits_def)

lemma filter_overlaps_upt_zero:
  "0 < n \<Longrightarrow> filter_overlaps [0..<n] 0 = Inr [0..<n]"
proof -
  assume "0 < n"
  then have "[0..<n] = 0 # [Suc 0..<n]"
    by (simp add: upt_conv_Cons)
  moreover have "sort (remdups [0..<n]) = [0..<n]"
    by (simp add: sorted_sort_id)
  moreover have "filter_loop [Suc 0..<n] 0 [0] 0 = [0] @ [Suc 0..<n]"
    by (rule filter_loop_zero) simp
  ultimately show ?thesis
    by (simp add: filter_overlaps_def)
qed

lemma nonstrict_order_empty:
  assumes "event_names (events tr) name = Inr ns" and "1 \<le> cnt"
  shows "check_sequence_nonstrict_order tr [] cnt hack_delim name =
           Inr (if cnt \<le> int (length (events tr)) then 2 else 0)"
proof (cases "int (length (events tr)) < cnt")
  case True
  then show ?thesis
    by (simp add: check_sequence_nonstrict_order_def)
next
  case False
  with assms(2) have "0 < length ns"
    using event_names_length [OF assms(1)] by linarith
  with False show ?thesis
    using assms(1) event_names_length [OF assms(1)]
    by (simp add: check_sequence_nonstrict_order_def find_indices_empty filter_overlaps_upt_zero)
qed


text \<open>
  Claim C10. With the empty pattern list and a count of at least 1, the two interleaved
  checkers return 0 on every trace, while \<open>check_sequence_strict_order\<close> and
  \<open>check_sequence_nonstrict_order\<close> return 2 exactly when the trace has at least
  \<open>count\<close> events and 0 otherwise (for every non-empty delimiter, the default one
  included).
\<close>

theorem empty_pattern_verdicts:
  assumes "event_names (events tr) concept_name = Inr ns" and "1 \<le> cnt" and "hack_delim \<noteq> []"
  shows "check_sequence_strict_order_interleaved tr [] cnt = Inr 0 \<and>
         check_sequence_nonstrict_order_interleaved tr [] cnt = Inr 0 \<and>
         check_sequence_strict_order tr [] cnt hack_delim concept_name =
           Inr (if cnt \<le> int (length (events tr)) then 2 else 0) \<and>
         check_sequence_nonstrict_order tr [] cnt hack_delim concept_name =
           Inr (if cnt \<le> int (length (events tr)) then 2 else 0)"
proof -
  have "check_sequence_strict_order_interleaved tr [] cnt = Inr 0"
    using assms(2)
    by (simp add: check_sequence_strict_order_interleaved_def strict_interleaved_loop_empty [OF assms(1)])
  moreover have "check_sequence_nonstrict_order_interleaved tr [] cnt = Inr 0"
    using assms(2)
    by (simp add: check_sequence_nonstrict_order_interleaved_def
        nonstrict_interleaved_loop_empty [OF assms(1)])
  ultimately show ?thesis
    using strict_order_empty [OF assms(1,3)] nonstrict_order_empty [OF assms(1,2)] by simp
qed

theorem empty_pattern_verdicts_witness:
  "event_names (events (trace_of [named act_A, named act_B])) concept_name = Inr [act_A, act_B] \<and>
   (1::int) \<le> 2 \<and> default_delim \<noteq> [] \<and>
   check_sequence_strict_order_interleaved (trace_of [named act_A, named act_B]) [] 2 = Inr 0 \<and>
   check_sequence_nonstrict_order_interleaved (trace_of [named act_A, named act_B]) [] 2 = Inr 0 \<and>
   check_sequence_strict_order (trace_of [named act_A, named act_B]) [] 2 default_delim concept_name
     = Inr 2 \<and>
   check_sequence_nonstrict_order (trace_of [named act_A, named act_B]) [] 2 default_delim concept_name
     = Inr 2"
proof -
  have h1: "event_names (events (trace_of [named act_A, named act_B])) concept_name
      = Inr [act_A, act_B]"
    by (simp add: trace_of_def named_def)
  have h2: "(1::int) \<le> 2"
    by simp
  have h3: "default_delim \<noteq> []"
    by (simp add: default_delim_def)
  from empty_pattern_verdicts [OF h1 h2 h3] h1 h3 show ?thesis
    by (simp add: trace_of_def)
qed

text \<open>
  Claim C4 says that an empty pattern list or an empty rule-attribute map fails fast with
  a configuration error. The code has no such error: on the trace of one event \<open>A\<close>,
  with count 1, every checker returns a verdict.
\<close>

theorem empty_configuration_counterexample:
  "check_sequence_strict_order (trace_of [named act_A]) [] 1 default_delim concept_name = Inr 2 \<and>
   check_sequence_nonstrict_order (trace_of [named act_A]) [] 1 default_delim concept_name = Inr 2 \<and>
   check_sequence_strict_order_interleaved (trace_of [named act_A]) [] 1 = Inr 0 \<and>
   check_sequence_nonstrict_order_interleaved (trace_of [named act_A]) [] 1 = Inr 0 \<and>
   check_trace_attribute (trace_of [named act_A]) [] = 2 \<and>
   check_trace_event_attributes (trace_of [named act_A]) [] = 2"
  by (simp add: check_sequence_strict_order_def check_sequence_nonstrict_order_def
      check_sequence_strict_order_interleaved_def check_sequence_nonstrict_order_interleaved_def
      check_trace_attribute_def check_trace_event_attributes_def str_count_def
      find_indices_def window_hits_def filter_overlaps_def example_defs)

text \<open>
  Claim C4, amended. For a trace whose events carry their names and a count of at least
  1, an empty pattern list raises no error in any sequence checker: the contiguous and the
  permutation checker return 0 or 2, the two interleaved checkers return 0. An empty
  rule-attribute map raises no error either: \<open>check_trace_attribute\<close> and
  \<open>check_trace_event_attributes\<close> return 2.
\<close>

theorem empty_configuration_returns_verdict:
  assumes "event_names (events tr) concept_name = Inr ns" and "1 \<le> cnt"
  shows "check_sequence_strict_order tr [] cnt hack_delim concept_name \<in> {Inr 0, Inr 2} \<and>
         check_sequence_nonstrict_order tr [] cnt hack_delim concept_name \<in> {Inr 0, Inr 2} \<and>
         check_sequence_strict_order_interleaved tr [] cnt = Inr 0 \<and>
         check_sequence_nonstrict_order_interleaved tr [] cnt = Inr 0 \<and>
         check_trace_attribute tr [] = 2 \<and>
         check_trace_event_attributes tr [] = 2"
proof -
  have "check_sequence_strict_order_interleaved tr [] cnt = Inr 0"
    using assms(2)
    by (simp add: check_sequence_strict_order_interleaved_def strict_interleaved_loop_empty [OF assms(1)])
  moreover have "check_sequence_nonstrict_order_interleaved tr [] cnt = Inr 0"
    using assms(2)
    by (simp add: check_sequence_nonstrict_order_interleaved_def
        nonstrict_interleaved_loop_empty [OF assms(1)])
  moreover have "check_trace_attribute tr [] = 2" "check_trace_event_attributes tr [] = 2"
    by (simp_all add: check_trace_attribute_def check_trace_event_attributes_def)
  ultimately show ?thesis
    using strict_order_empty_verdict [OF assms(1)] nonstrict_order_empty [OF assms(1,2)] by simp
qed

theorem empty_configuration_returns_verdict_witness:
  "event_names (events (trace_of [named act_A])) concept_name = Inr [act_A] \<and> (1::int) \<le> 1 \<and>
   check_sequence_strict_order (trace_of [named act_A]) [] 1 default_delim concept_name
     \<in> {Inr 0, Inr 2} \<and>
   check_sequence_nonstrict_order (trace_of [named act_A]) [] 1 default_delim concept_name
     \<in> {Inr 0, Inr 2} \<and>
   check_sequence_strict_order_interleaved (trace_of [named act_A]) [] 1 = Inr 0 \<and>
   check_sequence_nonstrict_order_interleaved (trace_of [named act_A]) [] 1 = Inr 0 \<and>
   check_trace_attribute (trace_of [named act_A]) [] = 2 \<and>
   check_trace_event_attributes (trace_of [named act_A]) [] = 2"
proof -
  have h1: "event_names (events (trace_of [named act_A])) concept_name = Inr [act_A]"
    by (simp add: trace_of_def named_def)
  have h2: "(1::int) \<le> 1"
    by simp
  from empty_configuration_returns_verdict [OF h1 h2, of default_delim] h1 show ?thesis
    by simp
qed

section \<open>The interleaved checkers\<close>

lemma nonstrict_loop_prefix:
  assumes "event_names es concept_name = Inr ns"
    and "filter (\<lambda>n. n \<in> set sequence) ns = take j cs"
    and "j < length cs"
  shows "nonstrict_interleaved_loop es sequence cs c = Inr c"
  using assms
proof (induction es arbitrary: ns j cs)
  case Nil
  then show ?case by simp
next
  case (Cons e es)
  from Cons.prems(1) obtain n ns' where e: "e concept_name = Some n"
    and ns': "event_names es concept_name = Inr ns'" and ns: "ns = n # ns'"
    by (auto split: option.splits sum.splits)
  show ?case
  proof (cases "n \<in> set sequence")
    case False
    with Cons.prems ns have "filter (\<lambda>n. n \<in> set sequence) ns' = take j cs"
      by simp
    from Cons.IH [OF ns' this Cons.prems(3)] False e show ?thesis
      by simp
  next
    case True
    with Cons.prems(2) ns have tk: "n # filter (\<lambda>n. n \<in> set sequence) ns' = take j cs"
      by simp
    then obtain j' cs' where j: "j = Suc j'" and cs: "cs = n # cs'"
      and f: "filter (\<lambda>n. n \<in> set sequence) ns' = take j' cs'"
      by (cases j; cases cs) auto
    from Cons.prems(3) j cs have j': "j' < length cs'"
      by simp
    from j' have "cs' \<noteq> []"
      by auto
    with Cons.IH [OF ns' f j'] True e cs show ?thesis
      by simp
  qed
qed

lemma nonstrict_loop_rounds:
  assumes "event_names es concept_name = Inr ns"
    and "filter (\<lambda>n. n \<in> set sequence) ns = cs @ concat (replicate k sequence) @ take j sequence"
    and "j < length sequence" and "cs \<noteq> []"
  shows "nonstrict_interleaved_loop es sequence cs c = Inr (c + 1 + k)"
  using assms
proof (induction es arbitrary: ns cs k c)
  case Nil
  then show ?case by simp
next
  case (Cons e es)
  from Cons.prems(1) obtain n ns' where e: "e concept_name = Some n"
    and ns': "event_names es concept_name = Inr ns'" and ns: "ns = n # ns'"
    by (auto split: option.splits sum.splits)
  show ?case
  proof (cases "n \<in> set sequence")
    case False
    with Cons.prems ns have
      "filter (\<lambda>n. n \<in> set sequence) ns' = cs @ concat (replicate k sequence) @ take j sequence"
      by simp
    from Cons.IH [OF ns' this Cons.prems(3,4)] False e show ?thesis
      by simp
  next
    case True
    from Cons.prems(4) obtain c0 cs' where cs: "cs = c0 # cs'"
      by (cases cs) auto
    with True Cons.prems(2) ns have c0: "c0 = n"
      and f: "filter (\<lambda>n. n \<in> set sequence) ns' = cs' @ concat (replicate k sequence) @ take j sequence"
      by simp_all
    show ?thesis
    proof (cases "cs' = []")
      case False
      from Cons.IH [OF ns' f Cons.prems(3) False] True e cs c0 False show ?thesis
        by simp
    next
      case empty: True
      have seq: "sequence \<noteq> []"
        using Cons.prems(3) by auto
      show ?thesis
      proof (cases k)
        case 0
        with f empty have "filter (\<lambda>n. n \<in> set sequence) ns' = take j sequence"
          by simp
        from nonstrict_loop_prefix [OF ns' this Cons.prems(3)]
          True e cs c0 empty 0 show ?thesis
          by simp
      next
        case (Suc k')
        with f empty have "filter (\<lambda>n. n \<in> set sequence) ns' =
            sequence @ concat (replicate k' sequence) @ take j sequence"
          by simp
        from Cons.IH [OF ns' this Cons.prems(3) seq]
          True e cs c0 empty Suc show ?thesis
          by simp
      qed
    qed
  qed
qed

lemma strict_loop_prefix:
  assumes "event_names es concept_name = Inr ns"
    and "filter (\<lambda>n. n \<in> set sequence) ns = take j cs"
    and "j < length cs"
  shows "strict_interleaved_loop es sequence cs c = Inr c"
  using assms
proof (induction es arbitrary: ns j cs)
  case Nil
  then show ?case by simp
next
  case (Cons e es)
  from Cons.prems(1) obtain n ns' where e: "e concept_name = Some n"
    and ns': "event_names es concept_name = Inr ns'" and ns: "ns = n # ns'"
    by (auto split: option.splits sum.splits)
  show ?case
  proof (cases "n \<in> set sequence")
    case False
    with Cons.prems ns have "filter (\<lambda>n. n \<in> set sequence) ns' = take j cs"
      by simp
    from Cons.IH [OF ns' this Cons.prems(3)] False e show ?thesis
      by simp
  next
    case True
    with Cons.prems(2) ns have tk: "n # filter (\<lambda>n. n \<in> set sequence) ns' = take j cs"
      by simp
    then obtain j' cs' where j: "j = Suc j'" and cs: "cs = n # cs'"
      and f: "filter (\<lambda>n. n \<in> set sequence) ns' = take j' cs'"
      by (cases j; cases cs) auto
    from Cons.prems(3) j cs have j': "j' < length cs'"
      by simp
    from j' have "cs' \<noteq> []"
      by auto
    with Cons.IH [OF ns' f j'] True e cs show ?thesis
      by simp
  qed
qed

lemma strict_loop_rounds:
  assumes "event_names es concept_name = Inr ns"
    and "filter (\<lambda>n. n \<in> set sequence) ns = cs @ concat (replicate k sequence) @ take j sequence"
    and "j < length sequence" and "cs \<noteq> []"
  shows "strict_interleaved_loop es sequence cs c = Inr (c + 1 + k)"
  using assms
proof (induction es arbitrary: ns cs k c)
  case Nil
  then show ?case by simp
next
  case (Cons e es)
  from Cons.prems(1) obtain n ns' where e: "e concept_name = Some n"
    and ns': "event_names es concept_name = Inr ns'" and ns: "ns = n # ns'"
    by (auto split: option.splits sum.splits)
  show ?case
  proof (cases "n \<in> set sequence")
    case False
    with Cons.prems ns have
      "filter (\<lambda>n. n \<in> set sequence) ns' = cs @ concat (replicate k sequence) @ take j sequence"
      by simp
    from Cons.IH [OF ns' this Cons.prems(3,4)] False e show ?thesis
      by simp
  next
    case True
    from Cons.prems(4) obtain c0 cs' where cs: "cs = c0 # cs'"
      by (cases cs) auto
    with True Cons.prems(2) ns have c0: "c0 = n"
      and f: "filter (\<lambda>n. n \<in> set sequence) ns' = cs' @ concat (replicate k sequence) @ take j sequence"
      by simp_all
    show ?thesis
    proof (cases "cs' = []")
      case False
      from Cons.IH [OF ns' f Cons.prems(3) False] True e cs c0 False show ?thesis
        by simp
    next
      case empty: True
      have seq: "sequence \<noteq> []"
        using Cons.prems(3) by auto
      show ?thesis
      proof (cases k)
        case 0
        with f empty have "filter (\<lambda>n. n \<in> set sequence) ns' = take j sequence"
          by simp
        from strict_loop_prefix [OF ns' this Cons.prems(3)]
          True e cs c0 empty 0 show ?thesis
          by simp
      next
        case (Suc k')
        with f empty have "filter (\<lambda>n. n \<in> set sequence) ns' =
            sequence @ concat (replicate k' sequence) @ take j sequence"
          by simp
        from Cons.IH [OF ns' this Cons.prems(3) seq]
          True e cs c0 empty Suc show ?thesis
          by simp
      qed
    qed
  qed
qed


text \<open>
  Claim C6. For every non-empty pattern, every count and every trace in which the events
  with a name of the pattern occur, in trace order, as \<open>k\<close> consecutive repetitions of
  the pattern followed by a proper prefix of it,
  \<open>check_sequence_nonstrict_order_interleaved\<close> and
  \<open>check_sequence_strict_order_interleaved\<close> return the same verdict (2 iff
  \<open>count \<le> k\<close>, else 0).
\<close>

theorem interleaved_agree:
  assumes "event_names (events tr) concept_name = Inr ns"
    and "sequence \<noteq> []"
    and "filter (\<lambda>n. n \<in> set sequence) ns = concat (replicate k sequence) @ take j sequence"
    and "j < length sequence"
  shows "check_sequence_nonstrict_order_interleaved tr sequence cnt =
           check_sequence_strict_order_interleaved tr sequence cnt \<and>
         check_sequence_strict_order_interleaved tr sequence cnt =
           Inr (if cnt \<le> int k then 2 else 0)"
proof -
  have "nonstrict_interleaved_loop (events tr) sequence sequence 0 = Inr k \<and>
        strict_interleaved_loop (events tr) sequence sequence 0 = Inr k"
  proof (cases k)
    case 0
    with assms(3) have "filter (\<lambda>n. n \<in> set sequence) ns = take j sequence"
      by simp
    from nonstrict_loop_prefix [OF assms(1) this assms(4)]
      strict_loop_prefix [OF assms(1) this assms(4)] 0 show ?thesis
      by simp
  next
    case (Suc k')
    with assms(3) have "filter (\<lambda>n. n \<in> set sequence) ns =
        sequence @ concat (replicate k' sequence) @ take j sequence"
      by simp
    from nonstrict_loop_rounds [OF assms(1) this assms(4,2)]
      strict_loop_rounds [OF assms(1) this assms(4,2)] Suc show ?thesis
      by simp
  qed
  then show ?thesis
    by (simp add: check_sequence_nonstrict_order_interleaved_def
        check_sequence_strict_order_interleaved_def)
qed

theorem interleaved_agree_witness:
  "event_names (events (trace_of [named act_A, named act_X, named act_B, named act_A,
      named act_B, named act_X, named act_A])) concept_name
     = Inr [act_A, act_X, act_B, act_A, act_B, act_X, act_A] \<and>
   [act_A, act_B] \<noteq> [] \<and>
   filter (\<lambda>n. n \<in> set [act_A, act_B]) [act_A, act_X, act_B, act_A, act_B, act_X, act_A]
     = concat (replicate 2 [act_A, act_B]) @ take 1 [act_A, act_B] \<and>
   1 < length [act_A, act_B] \<and>
   check_sequence_nonstrict_order_interleaved (trace_of [named act_A, named act_X, named act_B,
      named act_A, named act_B, named act_X, named act_A]) [act_A, act_B] 2 = Inr 2 \<and>
   check_sequence_strict_order_interleaved (trace_of [named act_A, named act_X, named act_B,
      named act_A, named act_B, named act_X, named act_A]) [act_A, act_B] 2 = Inr 2"
proof -
  have h1: "event_names (events (trace_of [named act_A, named act_X, named act_B, named act_A,
      named act_B, named act_X, named act_A])) concept_name
     = Inr [act_A, act_X, act_B, act_A, act_B, act_X, act_A]"
    by (simp add: trace_of_def named_def)
  have h2: "[act_A, act_B] \<noteq> []"
    by simp
  have h3: "filter (\<lambda>n. n \<in> set [act_A, act_B]) [act_A, act_X, act_B, act_A, act_B, act_X, act_A]
     = concat (replicate 2 [act_A, act_B]) @ take 1 [act_A, act_B]"
    by (simp add: act_A_def act_B_def act_X_def numeral_2_eq_2)
  have h4: "1 < length [act_A, act_B]"
    by simp
  from interleaved_agree [OF h1 h2 h3 h4, of 2] h1 h3 show ?thesis
    by simp
qed

section \<open>The permutation checker\<close>

lemma mset_delete_nth:
  "i < length zs \<Longrightarrow> mset (take i zs @ drop (Suc i) zs) = mset zs - {#zs ! i#}"
proof -
  assume "i < length zs"
  then have "zs = take i zs @ zs ! i # drop (Suc i) zs"
    by (rule id_take_nth_drop)
  then have "mset zs = mset (take i zs @ drop (Suc i) zs) + {#zs ! i#}"
    by (metis mset.simps(2) mset_append union_mset_add_mset_right add_mset_add_single)
  then show ?thesis
    by simp
qed

lemma set_permutations: "set (permutations xs) = {ys. mset ys = mset xs}"
proof (induction xs rule: permutations.induct)
  case 1
  then show ?case by simp
next
  case (2 x xs)
  let ?zs = "x # xs"
  have IH: "set (permutations (take i ?zs @ drop (Suc i) ?zs)) = {ys. mset ys = mset ?zs - {#?zs ! i#}}"
    if "i < length ?zs" for i
  proof -
    from that have "i \<in> set [0..<length ?zs]"
      by auto
    from "2.IH" [OF this] show ?thesis
      unfolding mset_delete_nth [OF that] .
  qed
  have "set (permutations ?zs) =
      (\<Union>i\<in>{0..<length ?zs}. (#) (?zs ! i) ` set (permutations (take i ?zs @ drop (Suc i) ?zs)))"
    by (simp only: permutations.simps set_concat set_map set_upt image_image)
  also have "\<dots> = (\<Union>i\<in>{0..<length ?zs}. (#) (?zs ! i) ` {ys. mset ys = mset ?zs - {#?zs ! i#}})"
    using IH by simp
  also have "\<dots> = {ys. mset ys = mset ?zs}"
  proof (intro set_eqI iffI)
    fix ys
    assume "ys \<in> (\<Union>i\<in>{0..<length ?zs}. (#) (?zs ! i) ` {ys. mset ys = mset ?zs - {#?zs ! i#}})"
    then obtain i ys' where i: "i < length ?zs" and ys: "ys = ?zs ! i # ys'"
      and m: "mset ys' = mset ?zs - {#?zs ! i#}"
      by auto
    from i have "?zs ! i \<in># mset ?zs"
      using nth_mem by (metis set_mset_mset)
    with ys m show "ys \<in> {ys. mset ys = mset ?zs}"
      by simp
  next
    fix ys
    assume "ys \<in> {ys. mset ys = mset ?zs}"
    then have m: "mset ys = mset ?zs"
      by simp
    then obtain y ys' where ys: "ys = y # ys'"
      by (cases ys) auto
    with m have "y \<in> set ?zs"
      by (metis list.set_intros(1) mset_eq_setD)
    then obtain i where i: "i < length ?zs" and y: "?zs ! i = y"
      by (metis in_set_conv_nth)
    from m ys y have "mset ys' = mset ?zs - {#?zs ! i#}"
      by (metis add_mset_remove_trivial mset.simps(2))
    with i ys y show "ys \<in> (\<Union>i\<in>{0..<length ?zs}. (#) (?zs ! i) ` {ys. mset ys = mset ?zs - {#?zs ! i#}})"
      by (auto simp del: length_Cons nth_Cons_Suc mset.simps)
  qed
  finally show ?case .
qed

lemma set_window_hits:
  "set (window_hits search_list m perm_seq) =
     {i. i < length search_list - m \<and> take m (drop i search_list) = perm_seq}"
  by (auto simp: window_hits_def)

lemma set_perm_loop:
  "set (perm_loop ps tested search_list m found) =
     set found \<union> {i. i < length search_list - m \<and> take m (drop i search_list) \<in> set ps - tested}"
  by (induction ps arbitrary: tested found) (auto simp: set_window_hits)

lemma set_find_indices:
  "set (find_indices search_list sequence) =
     {i. i < length search_list - length sequence \<and>
         mset (take (length sequence) (drop i search_list)) = mset sequence}"
  by (simp add: find_indices_def set_perm_loop set_permutations)

lemma filter_loop_greedy: "filter_loop xs m acc nm = acc @ greedy_select m nm xs"
  by (induction xs arbitrary: acc nm) auto

lemma greedy_select_lower: "x \<in> set (greedy_select m nm xs) \<Longrightarrow> nm \<le> x"
proof (induction xs arbitrary: nm)
  case Nil
  then show ?case by simp
next
  case (Cons a xs)
  show ?case
  proof (cases "nm \<le> a")
    case True
    with Cons.prems have "x = a \<or> x \<in> set (greedy_select m (a + m) xs)"
      by simp
    with True Cons.IH [of "a + m"] show ?thesis
      by auto
  next
    case False
    with Cons.prems Cons.IH [of nm] show ?thesis
      by simp
  qed
qed

lemma greedy_select_nonoverlapping: "sorted_wrt (\<lambda>p q. p + m \<le> q) (greedy_select m nm xs)"
  by (induction xs arbitrary: nm) (auto dest: greedy_select_lower)

lemma greedy_select_subset: "set (greedy_select m nm xs) \<subseteq> set xs"
  by (induction xs arbitrary: nm) auto

lemma greedy_select_append_length:
  "length (greedy_select m nm xs) \<le> length (greedy_select m nm (xs @ ys))"
  by (induction xs arbitrary: nm) auto

lemma sort_remdups_find_indices:
  "sort (remdups (find_indices ns sequence)) =
     filter (\<lambda>i. mset (take (length sequence) (drop i ns)) = mset sequence)
       [0..<length ns - length sequence]"
  by (rule sorted_distinct_set_unique) (auto simp: set_find_indices intro: sorted_wrt_filter)

lemma matching_windows_split:
  "matching_windows ns sequence =
     sort (remdups (find_indices ns sequence)) @
     filter (\<lambda>i. mset (take (length sequence) (drop i ns)) = mset sequence)
       [length ns - length sequence..<length ns + 1 - length sequence]"
proof -
  have "[0..<length ns + 1 - length sequence] =
      [0..<length ns - length sequence] @ [length ns - length sequence..<length ns + 1 - length sequence]"
    by (metis upt_add_eq_append le_add_diff_inverse zero_le diff_le_mono le_add1)
  then show ?thesis
    by (simp add: matching_windows_def sort_remdups_find_indices)
qed

lemma filter_overlaps_greedy:
  "found \<noteq> [] \<Longrightarrow> filter_overlaps found m = Inr (greedy_select m 0 (sort (remdups found)))"
proof -
  assume "found \<noteq> []"
  then have "sort (remdups found) \<noteq> []"
    by (metis set_empty set_remdups set_sort)
  then show ?thesis
    by (cases "sort (remdups found)") (simp_all add: filter_overlaps_def filter_loop_greedy)
qed

text \<open>
  Claim C5. Whenever the greedy filter of \<open>check_sequence_nonstrict_order\<close> is reached
  with a count of at least 1, it returns a list of selected window starts that are
  pairwise non-overlapping (each start is at least the pattern length after the one
  before), that are starts of matching windows, and whose number does not exceed the number
  of windows an earliest-first left-to-right greedy selection picks from all matching
  windows of the trace.
\<close>

theorem selected_windows_nonoverlapping:
  assumes "1 \<le> cnt" and "\<not> int (length (find_indices ns sequence)) < cnt"
  shows "\<exists>filtered_indices.
           filter_overlaps (find_indices ns sequence) (length sequence) = Inr filtered_indices \<and>
           sorted_wrt (\<lambda>p q. p + length sequence \<le> q) filtered_indices \<and>
           set filtered_indices \<subseteq> set (matching_windows ns sequence) \<and>
           length filtered_indices
             \<le> length (greedy_select (length sequence) 0 (matching_windows ns sequence))"
proof -
  let ?F = "sort (remdups (find_indices ns sequence))"
  from assms have "find_indices ns sequence \<noteq> []"
    by auto
  then have "filter_overlaps (find_indices ns sequence) (length sequence) =
      Inr (greedy_select (length sequence) 0 ?F)"
    by (rule filter_overlaps_greedy)
  moreover have "length (greedy_select (length sequence) 0 ?F)
      \<le> length (greedy_select (length sequence) 0 (matching_windows ns sequence))"
    unfolding matching_windows_split by (rule greedy_select_append_length)
  moreover have "set (greedy_select (length sequence) 0 ?F) \<subseteq> set (matching_windows ns sequence)"
    using greedy_select_subset [of "length sequence" 0 ?F]
    unfolding matching_windows_split by auto
  ultimately show ?thesis
    using greedy_select_nonoverlapping by blast
qed

theorem selected_windows_nonoverlapping_witness:
  "(1::int) \<le> 1 \<and>
   \<not> int (length (find_indices [act_A, act_B, act_A, act_B] [act_A, act_B])) < 1 \<and>
   filter_overlaps (find_indices [act_A, act_B, act_A, act_B] [act_A, act_B])
     (length [act_A, act_B]) = Inr [0] \<and>
   greedy_select (length [act_A, act_B]) 0
     (matching_windows [act_A, act_B, act_A, act_B] [act_A, act_B]) = [0, 2] \<and>
   (\<exists>filtered_indices.
      filter_overlaps (find_indices [act_A, act_B, act_A, act_B] [act_A, act_B])
        (length [act_A, act_B]) = Inr filtered_indices \<and>
      sorted_wrt (\<lambda>p q. p + length [act_A, act_B] \<le> q) filtered_indices \<and>
      set filtered_indices \<subseteq> set (matching_windows [act_A, act_B, act_A, act_B] [act_A, act_B]) \<and>
      length filtered_indices
        \<le> length (greedy_select (length [act_A, act_B]) 0
             (matching_windows [act_A, act_B, act_A, act_B] [act_A, act_B])))"
proof -
  have f: "find_indices [act_A, act_B, act_A, act_B] [act_A, act_B] = [0, 1]"
    by (simp add: find_indices_def window_hits_def example_defs upt_rec)
  have h1: "(1::int) \<le> 1"
    by simp
  have h2: "\<not> int (length (find_indices [act_A, act_B, act_A, act_B] [act_A, act_B])) < 1"
    by (simp add: f)
  have v1: "filter_overlaps (find_indices [act_A, act_B, act_A, act_B] [act_A, act_B])
      (length [act_A, act_B]) = Inr [0]"
    by (simp add: f filter_overlaps_def)
  have v2: "greedy_select (length [act_A, act_B]) 0
      (matching_windows [act_A, act_B, act_A, act_B] [act_A, act_B]) = [0, 2]"
    by (simp add: matching_windows_def example_defs upt_rec)
  show ?thesis
    by (intro conjI h1 h2 v1 v2 selected_windows_nonoverlapping [OF h1 h2])
qed


text \<open>
  Claim C1 says that every starting position from 0 through \<open>len(trace) - m\<close> is
  considered, so that a matching window ending at the last event is found. The scan stops
  one position early: no index found lies in the last window position.
\<close>

lemma find_indices_upper:
  "i \<in> set (find_indices ns sequence) \<Longrightarrow> i + length sequence < length ns"
  by (auto simp: set_find_indices)

text \<open>
  Claim C1 at the trace \<open>[A, B]\<close> with the pattern \<open>[A, B]\<close> and count 1: the only
  window matches the pattern and ends at the last event, no index is found, and
  \<open>check_sequence_nonstrict_order\<close> returns 0, where \<open>check_sequence_strict_order\<close>
  returns 2.
\<close>

theorem nonstrict_order_misses_last_window:
  "mset (take (length [act_A, act_B]) (drop 0 [act_A, act_B])) = mset [act_A, act_B] \<and>
   find_indices [act_A, act_B] [act_A, act_B] = [] \<and>
   check_sequence_nonstrict_order (trace_of [named act_A, named act_B]) [act_A, act_B] 1
     default_delim concept_name = Inr 0 \<and>
   check_sequence_strict_order (trace_of [named act_A, named act_B]) [act_A, act_B] 1
     default_delim concept_name = Inr 2"
  by (simp add: check_sequence_nonstrict_order_def check_sequence_strict_order_def
      find_indices_def window_hits_def str_count_def count_from.simps example_defs)

section \<open>Counting substrings\<close>

lemma take_eq_prefix: "take (length sub) s = sub \<longleftrightarrow> prefix sub s"
  by (metis append_eq_conv_conj prefix_def take_is_prefix)

lemma count_from_short: "length s < length sub \<Longrightarrow> count_from s sub = 0"
  by (simp add: count_from.simps)

lemma count_from_Nil [simp]: "sub \<noteq> [] \<Longrightarrow> count_from [] sub = 0"
  by (simp add: count_from.simps)

lemma count_from_append: "sub \<noteq> [] \<Longrightarrow> count_from (sub @ r) sub = 1 + count_from r sub"
  by (subst count_from.simps) simp

lemma count_from_skip:
  assumes "\<not> prefix sub (x # s)"
  shows "count_from (x # s) sub = count_from s sub"
proof (cases "sub = [] \<or> length (x # s) < length sub")
  case True
  then show ?thesis
    by (auto simp: count_from.simps [of s] count_from.simps [of "x # s"])
next
  case False
  with assms show ?thesis
    by (subst count_from.simps) (simp add: take_eq_prefix)
qed

lemma count_from_drop:
  assumes "sub \<noteq> []"
  shows "count_from (drop k s) sub \<le> count_from s sub \<and>
         (k \<le> length sub \<longrightarrow> count_from s sub \<le> 1 + count_from (drop k s) sub)"
proof (induction "length s" arbitrary: s k rule: less_induct)
  case less
  let ?m = "length sub"
  from assms have m: "0 < ?m"
    by simp
  show ?case
  proof (cases "k = 0 \<or> s = []")
    case True
    then show ?thesis by auto
  next
    case False
    then obtain x s' where s: "s = x # s'" and k: "0 < k"
      by (cases s) auto
    have shorter: "length (drop j s) < length s" if "0 < j" for j
      using that s by simp
    show ?thesis
    proof (cases "prefix sub s")
      case True
      then obtain r where r: "s = sub @ r"
        by (auto simp: prefix_def)
      then have cs: "count_from s sub = 1 + count_from (drop ?m s) sub"
        using count_from_append [OF assms, of r] by simp
      have a: "count_from (drop k s) sub \<le> count_from s sub"
      proof (cases "?m \<le> k")
        case True
        then have "drop k s = drop (k - ?m) (drop ?m s)"
          by simp
        with less [OF shorter [OF m], of "k - ?m"] cs show ?thesis
          by simp
      next
        case False
        then have "drop ?m s = drop (?m - k) (drop k s)"
          by simp
        with less [OF shorter [OF k], of "?m - k"] cs show ?thesis
          by simp
      qed
      have b: "count_from s sub \<le> 1 + count_from (drop k s) sub" if "k \<le> ?m"
      proof -
        from that have "drop ?m s = drop (?m - k) (drop k s)"
          by simp
        with less [OF shorter [OF k], of "?m - k"] cs show ?thesis
          by simp
      qed
      from a b show ?thesis
        by simp
    next
      case False
      with s have cs: "count_from s sub = count_from s' sub"
        by (simp add: count_from_skip)
      have d: "drop k s = drop (k - 1) s'"
        using s k by (cases k) auto
      from less [of s' "k - 1"] s cs d show ?thesis
        by auto
    qed
  qed
qed

lemma count_from_drop_le: "sub \<noteq> [] \<Longrightarrow> count_from (drop k s) sub \<le> count_from s sub"
  using count_from_drop by blast

lemma occurs_at_bound: "sub \<noteq> [] \<Longrightarrow> occurs_at sub s q \<Longrightarrow> q + length sub \<le> length s"
  unfolding occurs_at_def
  by (metis length_take length_drop min_def le_diff_conv2 add.commute
      length_greater_0_conv not_le diff_is_0_eq' nat_le_linear)

lemma occurs_at_split:
  assumes "sub \<noteq> []" and "occurs_at sub s q"
  shows "drop q s = sub @ drop (q + length sub) s"
proof -
  have "drop q s = take (length sub) (drop q s) @ drop (length sub) (drop q s)"
    by (simp only: append_take_drop_id)
  with assms(2) show ?thesis
    by (simp add: occurs_at_def add.commute)
qed

lemma occurrences_le_count:
  assumes "sub \<noteq> []"
    and "sorted_wrt (\<lambda>p q. p + length sub \<le> q) qs"
    and "\<forall>q\<in>set qs. occurs_at sub s q"
  shows "length qs \<le> count_from s sub"
  using assms(2,3)
proof (induction "length qs" arbitrary: qs s)
  case 0
  then show ?case by simp
next
  case (Suc n)
  then obtain q qs' where qs: "qs = q # qs'" and n: "n = length qs'"
    by (cases qs) auto
  let ?d = "q + length sub"
  let ?r = "drop ?d s"
  let ?qs = "map (\<lambda>p. p - ?d) qs'"
  from Suc.prems qs have q: "occurs_at sub s q" and ge: "\<forall>p\<in>set qs'. ?d \<le> p"
    and sorted: "sorted_wrt (\<lambda>p q. p + length sub \<le> q) qs'"
    by auto
  have s0: "n = length ?qs"
    using n by simp
  have s1: "sorted_wrt (\<lambda>p q. p + length sub \<le> q) ?qs"
    unfolding sorted_wrt_map
    by (rule sorted_wrt_mono_rel [OF _ sorted]) (use ge in auto)
  have s2: "\<forall>p\<in>set ?qs. occurs_at sub ?r p"
    using Suc.prems(2) qs ge by (auto simp: occurs_at_def)
  from Suc.hyps(1) [OF s0 s1 s2] have "length qs' \<le> count_from ?r sub"
    by simp
  moreover have "count_from (drop q s) sub = 1 + count_from ?r sub"
    using occurs_at_split [OF assms(1) q] count_from_append [OF assms(1), of ?r] by simp
  moreover have "count_from (drop q s) sub \<le> count_from s sub"
    by (rule count_from_drop_le [OF assms(1)])
  ultimately show ?case
    using qs by simp
qed

lemma count_occurrences_exist:
  assumes "sub \<noteq> []"
  shows "\<exists>qs. length qs = count_from s sub \<and>
              sorted_wrt (\<lambda>p q. p + length sub \<le> q) qs \<and>
              (\<forall>q\<in>set qs. occurs_at sub s q)"
proof (induction "length s" arbitrary: s rule: less_induct)
  case less
  show ?case
  proof (cases "prefix sub s")
    case True
    then obtain r where r: "s = sub @ r"
      by (auto simp: prefix_def)
    from assms r have "length r < length s"
      by simp
    from less [OF this] obtain qs where qs: "length qs = count_from r sub"
      "sorted_wrt (\<lambda>p q. p + length sub \<le> q) qs" "\<forall>q\<in>set qs. occurs_at sub r q"
      by blast
    let ?qs = "0 # map (\<lambda>p. p + length sub) qs"
    have "length ?qs = count_from s sub"
      using qs(1) r count_from_append [OF assms, of r] by simp
    moreover have "sorted_wrt (\<lambda>p q. p + length sub \<le> q) ?qs"
      using qs(2) by (simp add: sorted_wrt_map)
    moreover have "\<forall>q\<in>set ?qs. occurs_at sub s q"
      using qs(3) r by (auto simp: occurs_at_def)
    ultimately show ?thesis
      by blast
  next
    case False
    show ?thesis
    proof (cases s)
      case Nil
      with assms show ?thesis
        by (intro exI [of _ "[]"]) simp
    next
      case (Cons x s')
      then have "length s' < length s"
        by simp
      from less [OF this] obtain qs where qs: "length qs = count_from s' sub"
        "sorted_wrt (\<lambda>p q. p + length sub \<le> q) qs" "\<forall>q\<in>set qs. occurs_at sub s' q"
        by blast
      let ?qs = "map Suc qs"
      have "length ?qs = count_from s sub"
        using qs(1) Cons False by (simp add: count_from_skip)
      moreover have "sorted_wrt (\<lambda>p q. p + length sub \<le> q) ?qs"
        using qs(2) by (simp add: sorted_wrt_map)
      moreover have "\<forall>q\<in>set ?qs. occurs_at sub s q"
        using qs(3) Cons by (auto simp: occurs_at_def)
      ultimately show ?thesis
        by blast
    qed
  qed
qed

lemma count_from_ge_iff:
  assumes "sub \<noteq> []"
  shows "k \<le> count_from s sub \<longleftrightarrow>
           (\<exists>qs. length qs = k \<and> sorted_wrt (\<lambda>p q. p + length sub \<le> q) qs \<and>
                 (\<forall>q\<in>set qs. occurs_at sub s q))"
proof
  assume k: "k \<le> count_from s sub"
  from count_occurrences_exist [OF assms, of s] obtain qs where qs: "length qs = count_from s sub"
    "sorted_wrt (\<lambda>p q. p + length sub \<le> q) qs" "\<forall>q\<in>set qs. occurs_at sub s q"
    by blast
  have "length (take k qs) = k"
    using k qs(1) by simp
  moreover have "sorted_wrt (\<lambda>p q. p + length sub \<le> q) (take k qs)"
    using qs(2) by (rule sorted_wrt_take)
  moreover have "\<forall>q\<in>set (take k qs). occurs_at sub s q"
    using qs(3) by (auto dest: in_set_takeD)
  ultimately show "\<exists>qs. length qs = k \<and> sorted_wrt (\<lambda>p q. p + length sub \<le> q) qs \<and>
      (\<forall>q\<in>set qs. occurs_at sub s q)"
    by blast
next
  assume "\<exists>qs. length qs = k \<and> sorted_wrt (\<lambda>p q. p + length sub \<le> q) qs \<and>
      (\<forall>q\<in>set qs. occurs_at sub s q)"
  then show "k \<le> count_from s sub"
    using occurrences_le_count [OF assms] by blast
qed

section \<open>The contiguous checker\<close>

lemma occurs_at_append_left:
  assumes "sub \<noteq> []" and "occurs_at sub s q"
  shows "occurs_at sub (s @ t) q"
proof -
  from occurs_at_bound [OF assms] have "q + length sub \<le> length s" .
  with assms(2) show ?thesis
    by (simp add: occurs_at_def)
qed

lemma occurs_at_append_right: "occurs_at sub s q \<Longrightarrow> occurs_at sub (t @ s) (length t + q)"
  by (simp add: occurs_at_def)

lemma event_names_append:
  "event_names es name = Inr ns \<Longrightarrow> event_names es' name = Inr ns' \<Longrightarrow>
   event_names (es @ es') name = Inr (ns @ ns')"
  by (induction es arbitrary: ns) (auto split: option.splits sum.splits)

lemma join_append:
  "xs \<noteq> [] \<Longrightarrow> ys \<noteq> [] \<Longrightarrow> join delim (xs @ ys) = join delim xs @ delim @ join delim ys"
proof (induction delim xs rule: join.induct)
  case (2 delim x)
  then show ?case by (cases ys) auto
qed auto

lemma str_count_doubled:
  assumes "delim \<noteq> []" and "1 \<le> str_count s sub"
  shows "2 \<le> str_count (s @ delim @ s) sub"
proof (cases "sub = []")
  case True
  with assms(1) show ?thesis
    by (cases delim) (auto simp: str_count_def)
next
  case False
  with assms(2) have "1 \<le> count_from s sub"
    by (simp add: str_count_def)
  then obtain qs where qs: "length qs = 1" "\<forall>q\<in>set qs. occurs_at sub s q"
    using count_from_ge_iff [OF False, of 1 s] by blast
  then obtain q where q: "occurs_at sub s q"
    by (cases qs) auto
  let ?q' = "length (s @ delim) + q"
  have "occurs_at sub (s @ delim @ s) q"
    by (rule occurs_at_append_left [OF False q])
  moreover have "occurs_at sub (s @ delim @ s) ?q'"
    using occurs_at_append_right [OF q, of "s @ delim"] by simp
  moreover have "q + length sub \<le> ?q'"
    using occurs_at_bound [OF False q] by simp
  ultimately have "length [q, ?q'] \<le> count_from (s @ delim @ s) sub"
    by (intro occurrences_le_count [OF False]) simp_all
  with False show ?thesis
    by (simp add: str_count_def)
qed

text \<open>
  Claim C7. For every trace \<open>T\<close>, every pattern and every non-empty delimiter (the
  default one included): if \<open>check_sequence_strict_order\<close> returns 2 on \<open>T\<close> with
  count 1, it returns 2 on the concatenated trace \<open>T ++ T\<close> with count 2.
\<close>

theorem strict_order_doubled:
  assumes "hack_delim \<noteq> []"
    and "check_sequence_strict_order tr sequence 1 hack_delim name = Inr 2"
  shows "check_sequence_strict_order (tr\<lparr>events := events tr @ events tr\<rparr>) sequence 2
           hack_delim name = Inr 2"
proof -
  from assms(2) have len: "\<not> int (length (events tr)) < 1"
    by (auto simp: check_sequence_strict_order_def split: if_splits)
  with assms(2) obtain ns where ns: "event_names (events tr) name = Inr ns"
    and c: "1 \<le> str_count (join hack_delim ns) (join hack_delim sequence)"
    by (auto simp: check_sequence_strict_order_def Let_def split: sum.splits if_splits)
  from len event_names_length [OF ns] have "ns \<noteq> []"
    by auto
  then have "join hack_delim (ns @ ns) = join hack_delim ns @ hack_delim @ join hack_delim ns"
    by (simp add: join_append)
  with str_count_doubled [OF assms(1) c]
  have "2 \<le> str_count (join hack_delim (ns @ ns)) (join hack_delim sequence)"
    by simp
  with len event_names_append [OF ns ns] show ?thesis
    by (simp add: check_sequence_strict_order_def)
qed

theorem strict_order_doubled_witness:
  "default_delim \<noteq> [] \<and>
   check_sequence_strict_order (trace_of [named act_X, named act_A, named act_B]) [act_A, act_B] 1
     default_delim concept_name = Inr 2 \<and>
   check_sequence_strict_order
     ((trace_of [named act_X, named act_A, named act_B])
        \<lparr>events := events (trace_of [named act_X, named act_A, named act_B]) @
                   events (trace_of [named act_X, named act_A, named act_B])\<rparr>)
     [act_A, act_B] 2 default_delim concept_name = Inr 2"
proof -
  have h1: "default_delim \<noteq> []"
    by (simp add: default_delim_def)
  have h2: "check_sequence_strict_order (trace_of [named act_X, named act_A, named act_B])
      [act_A, act_B] 1 default_delim concept_name = Inr 2"
    by (simp add: check_sequence_strict_order_def str_count_def count_from.simps example_defs)
  from strict_order_doubled [OF h1 h2] h1 h2 show ?thesis
    by simp
qed

section \<open>Joined names against lists of names\<close>

lemma join_Cons:
  "join delim (t # rest) = t @ (if rest = [] then [] else delim @ join delim rest)"
  by (cases rest) auto

lemma prefix_delim_split:
  assumes "c \<notin> set a" and "c \<notin> set b" and "prefix (a @ c # x) (b @ c # y)"
  shows "a = b \<and> prefix x y"
  using assms
proof (induction a arbitrary: b)
  case Nil
  then show ?case by (cases b) auto
next
  case (Cons a0 a)
  show ?case
  proof (cases b)
    case Nil
    with Cons.prems show ?thesis by simp
  next
    case (Cons b0 b')
    with Cons.prems have "a0 = b0" "c \<notin> set a" "c \<notin> set b'" "prefix (a @ c # x) (b' @ c # y)"
      by simp_all
    with Cons.IH [of b'] Cons show ?thesis
      by simp
  qed
qed

lemma prefix_delim_absent:
  assumes "c \<notin> set b"
  shows "\<not> prefix (a @ c # x) b"
proof
  assume "prefix (a @ c # x) b"
  then have "c \<in> set b"
    by (auto simp: prefix_def)
  with assms show False
    by simp
qed

lemma prefix_before_delim:
  assumes "c \<notin> set a" and "prefix a (b @ c # y)"
  shows "prefix a b"
  using assms
proof (induction a arbitrary: b)
  case Nil
  then show ?case by simp
next
  case (Cons a0 a)
  show ?case
  proof (cases b)
    case Nil
    with Cons.prems show ?thesis by simp
  next
    case (Cons b0 b')
    with Cons.prems have "a0 = b0" "c \<notin> set a" "prefix a (b' @ c # y)"
      by simp_all
    with Cons.IH [of b'] Cons show ?thesis
      by simp
  qed
qed

lemma join_prefix_imp_prefix:
  assumes "ps \<noteq> []" and "plain_names c ps" and "plain_names c rest"
    and "\<forall>t\<in>set rest. prefix (last ps) t \<longrightarrow> t = last ps"
    and "prefix (join [c] ps) (join [c] rest)"
  shows "prefix ps rest"
  using assms
proof (induction ps arbitrary: rest)
  case Nil
  then show ?case by simp
next
  case (Cons p ps)
  note prems = Cons.prems and IH = Cons.IH
  from prems(2) have p: "p \<noteq> []" "c \<notin> set p" and ps: "plain_names c ps"
    by (auto simp: plain_names_def)
  show ?case
  proof (cases rest)
    case Nil
    with prems(5) p show ?thesis
      by (cases ps) auto
  next
    case rest: (Cons t r)
    with prems(3) have t: "c \<notin> set t" and r: "plain_names c r"
      by (auto simp: plain_names_def)
    show ?thesis
    proof (cases "ps = []")
      case True
      have "prefix p t"
      proof (cases "r = []")
        case True
        with prems(5) rest \<open>ps = []\<close> show ?thesis
          by simp
      next
        case False
        with prems(5) rest \<open>ps = []\<close> have "prefix p (t @ c # join [c] r)"
          by (simp add: join_Cons)
        with p(2) show ?thesis
          by (rule prefix_before_delim)
      qed
      with prems(4) True rest show ?thesis
        by simp
    next
      case False
      then have jp: "join [c] (p # ps) = p @ c # join [c] ps"
        by (simp add: join_Cons)
      show ?thesis
      proof (cases "r = []")
        case True
        with prems(5) jp rest have "prefix (p @ c # join [c] ps) t"
          by simp
        with prefix_delim_absent [OF t] show ?thesis
          by blast
      next
        case rne: False
        with rest have "join [c] rest = t @ c # join [c] r"
          by (simp add: join_Cons)
        with prems(5) jp have "prefix (p @ c # join [c] ps) (t @ c # join [c] r)"
          by simp
        from prefix_delim_split [OF p(2) t this]
        have pt: "p = t" and pr: "prefix (join [c] ps) (join [c] r)"
          by simp_all
        from prems(4) False rest have "\<forall>t\<in>set r. prefix (last ps) t \<longrightarrow> t = last ps"
          by simp
        from IH [OF False ps r this pr] pt rest show ?thesis
          by simp
      qed
    qed
  qed
qed


lemma plain_names_subset: "plain_names c ns \<Longrightarrow> set ms \<subseteq> set ns \<Longrightarrow> plain_names c ms"
  by (auto simp: plain_names_def)

lemma exact_names_subset: "exact_names ps ns \<Longrightarrow> set ms \<subseteq> set ns \<Longrightarrow> exact_names ps ms"
  by (auto simp: exact_names_def)

lemma join_plain_not_Nil:
  assumes "ps \<noteq> []" and "plain_names c ps"
  shows "join [c] ps \<noteq> []"
  using assms by (cases ps) (auto simp: join_Cons plain_names_def)

lemma join_plain_not_delim:
  assumes "ps \<noteq> []" and "plain_names c ps"
  shows "\<not> prefix (join [c] ps) (c # z)"
proof -
  from assms obtain p ps' where ps: "ps = p # ps'" and p: "p \<noteq> []" "c \<notin> set p"
    by (cases ps) (auto simp: plain_names_def)
  from p obtain p0 p' where "p = p0 # p'" "p0 \<noteq> c"
    by (cases p) auto
  with ps show ?thesis
    by (simp add: join_Cons)
qed

lemma match_inside_name:
  assumes "ps \<noteq> []" and "plain_names c ps" and "plain_names c (t # rest)"
    and "exact_names ps (t # rest)" and "suffix u t"
    and "prefix (join [c] ps) (u @ (if rest = [] then [] else c # join [c] rest))"
  shows "prefix ps (t # rest)"
proof -
  from assms(1) obtain p ps' where ps: "ps = p # ps'"
    by (cases ps) auto
  from assms(2) ps have p: "p \<noteq> []" "c \<notin> set p" and ps': "plain_names c ps'"
    by (auto simp: plain_names_def)
  from assms(3) have t: "c \<notin> set t" and rest: "plain_names c rest"
    by (auto simp: plain_names_def)
  from assms(5) t have u: "c \<notin> set u"
    by (auto simp: suffix_def)
  show ?thesis
  proof (cases "ps' = []")
    case True
    have "prefix p u"
    proof (cases "rest = []")
      case True
      with assms(6) ps \<open>ps' = []\<close> show ?thesis
        by simp
    next
      case False
      with assms(6) ps \<open>ps' = []\<close> have "prefix p (u @ c # join [c] rest)"
        by simp
      with p(2) show ?thesis
        by (rule prefix_before_delim)
    qed
    with assms(5) have "sublist p t"
      by (auto simp: prefix_def suffix_def sublist_def)
    with assms(4) ps True have "t = p"
      by (simp add: exact_names_def)
    with ps True show ?thesis
      by simp
  next
    case False
    then have jp: "join [c] ps = p @ c # join [c] ps'"
      using ps by (simp add: join_Cons)
    show ?thesis
    proof (cases "rest = []")
      case True
      with assms(6) jp have "prefix (p @ c # join [c] ps') u"
        by simp
      with prefix_delim_absent [OF u] show ?thesis
        by blast
    next
      case rne: False
      with assms(6) jp have "prefix (p @ c # join [c] ps') (u @ c # join [c] rest)"
        by simp
      from prefix_delim_split [OF p(2) u this]
      have pu: "p = u" and pr: "prefix (join [c] ps') (join [c] rest)"
        by simp_all
      from assms(4,5) ps pu have "t = p"
        by (simp add: exact_names_def)
      from assms(4) ps False have "\<forall>t\<in>set rest. prefix (last ps') t \<longrightarrow> t = last ps'"
        by (simp add: exact_names_def)
      from join_prefix_imp_prefix [OF False ps' rest this pr] \<open>t = p\<close> ps show ?thesis
        by simp
    qed
  qed
qed

lemma count_skip_name:
  assumes "ps \<noteq> []" and "plain_names c ps" and "plain_names c (t # rest)"
    and "exact_names ps (t # rest)" and "\<not> prefix ps (t # rest)" and "suffix u t"
  shows "count_from (u @ (if rest = [] then [] else c # join [c] rest)) (join [c] ps) =
           count_from (join [c] rest) (join [c] ps)"
  using assms(6)
proof (induction u)
  case Nil
  show ?case
  proof (cases "rest = []")
    case True
    then show ?thesis by simp
  next
    case False
    then show ?thesis
      using count_from_skip [OF join_plain_not_delim [OF assms(1,2), of "join [c] rest"]]
      by simp
  qed
next
  case (Cons x u)
  let ?Z = "if rest = [] then [] else c # join [c] rest"
  from Cons.prems have suf: "suffix u t"
    by (rule suffix_ConsD)
  have "\<not> prefix (join [c] ps) ((x # u) @ ?Z)"
    using match_inside_name [OF assms(1-4) Cons.prems] assms(5) by blast
  then have "count_from ((x # u) @ ?Z) (join [c] ps) = count_from (u @ ?Z) (join [c] ps)"
    using count_from_skip [of "join [c] ps" x "u @ ?Z"] by simp
  with Cons.IH [OF suf] show ?case
    by simp
qed

lemma count_take_match:
  assumes "ps \<noteq> []" and "plain_names c ps"
  shows "count_from (join [c] (ps @ r)) (join [c] ps) = 1 + count_from (join [c] r) (join [c] ps)"
proof (cases "r = []")
  case True
  then show ?thesis
    using count_from_append [OF join_plain_not_Nil [OF assms], of "[]"]
      join_plain_not_Nil [OF assms] by simp
next
  case False
  with assms(1) have "join [c] (ps @ r) = join [c] ps @ c # join [c] r"
    by (simp add: join_append)
  then show ?thesis
    using count_from_append [OF join_plain_not_Nil [OF assms], of "c # join [c] r"]
      count_from_skip [OF join_plain_not_delim [OF assms, of "join [c] r"]]
    by simp
qed

lemma count_join_eq:
  assumes "ps \<noteq> []" and "plain_names c ps"
  shows "plain_names c ns \<Longrightarrow> exact_names ps ns \<Longrightarrow>
         count_from (join [c] ns) (join [c] ps) = count_from ns ps"
proof (induction "length ns" arbitrary: ns rule: less_induct)
  case less
  show ?case
  proof (cases "prefix ps ns")
    case True
    then obtain r where r: "ns = ps @ r"
      by (auto simp: prefix_def)
    with assms(1) have "length r < length ns"
      by simp
    moreover from less.prems r have "plain_names c r" "exact_names ps r"
      by (auto intro: plain_names_subset exact_names_subset)
    ultimately have "count_from (join [c] r) (join [c] ps) = count_from r ps"
      by (rule less.hyps)
    with r show ?thesis
      using count_take_match [OF assms, of r] count_from_append [OF assms(1), of r] by simp
  next
    case False
    show ?thesis
    proof (cases ns)
      case Nil
      with assms show ?thesis
        by (simp add: join_plain_not_Nil)
    next
      case (Cons t rest)
      from less.prems Cons have "plain_names c rest" "exact_names ps rest"
        by (auto intro: plain_names_subset exact_names_subset)
      with less.hyps [of rest] Cons
      have IH: "count_from (join [c] rest) (join [c] ps) = count_from rest ps"
        by simp
      have sf: "suffix t t"
        by (rule suffix_order.refl)
      from less.prems False Cons
      have h: "plain_names c (t # rest)" "exact_names ps (t # rest)" "\<not> prefix ps (t # rest)"
        by simp_all
      have step: "count_from (t @ (if rest = [] then [] else c # join [c] rest)) (join [c] ps) =
          count_from (join [c] rest) (join [c] ps)"
        by (rule count_skip_name [OF assms h sf])
      have a: "join [c] ns = t @ (if rest = [] then [] else c # join [c] rest)"
        using Cons by (simp add: join_Cons)
      have b: "count_from ns ps = count_from rest ps"
        using False Cons by (simp add: count_from_skip)
      show ?thesis
        unfolding a b step IH ..
    qed
  qed
qed


text \<open>
  Claim C2 counts overlapping occurrences: the pattern \<open>[A, A]\<close> occurs at the
  positions 0 and 1 of the trace \<open>[A, A, A]\<close>, which has at least 2 events, yet
  \<open>check_sequence_strict_order\<close> with count 2 returns 0, since \<open>str.count\<close> resumes
  its search behind each occurrence.
\<close>

theorem strict_order_overlap_counterexample:
  "2 \<le> int (length (events (trace_of [named act_A, named act_A, named act_A]))) \<and>
   [act_A, act_A] \<noteq> [] \<and>
   occurs_at [act_A, act_A] [act_A, act_A, act_A] 0 \<and>
   occurs_at [act_A, act_A] [act_A, act_A, act_A] 1 \<and>
   check_sequence_strict_order (trace_of [named act_A, named act_A, named act_A]) [act_A, act_A] 2
     default_delim concept_name = Inr 0"
  by (simp add: check_sequence_strict_order_def str_count_def count_from.simps occurs_at_def
      example_defs)

text \<open>
  Substring search on the joined names also matches across a name boundary: the pattern
  \<open>[A, B]\<close> is reported in the trace \<open>[XA, B]\<close>, where it occurs nowhere. The
  hypotheses of the theorem below exclude such traces.
\<close>

lemma strict_order_partial_name_match:
  "check_sequence_strict_order (trace_of [named act_XA, named act_B]) [act_A, act_B] 1
     default_delim concept_name = Inr 2 \<and>
   \<not> occurs_at [act_A, act_B] [act_XA, act_B] 0 \<and>
   \<not> occurs_at [act_A, act_B] [act_XA, act_B] 1"
  by (simp add: check_sequence_strict_order_def str_count_def count_from.simps occurs_at_def
      example_defs)

text \<open>
  Claim C2, amended. Let the delimiter be one code point (as the default one is), let all
  names of the trace and of the non-empty pattern be non-empty and free of the delimiter,
  and let no trace name properly end with the first pattern name, properly start with the
  last pattern name or, for a one-name pattern, properly contain it. Then for every trace
  with at least \<open>count\<close> events, \<open>check_sequence_strict_order\<close> returns 2 iff the
  pattern appears as a contiguous run of exactly the same names in the same order at
  \<open>count\<close> or more pairwise non-overlapping positions, else 0.
\<close>

theorem strict_order_nonoverlapping:
  assumes "event_names (events tr) name = Inr ns"
    and "cnt \<le> int (length (events tr))"
    and "sequence \<noteq> []"
    and "plain_names c sequence" and "plain_names c ns"
    and "exact_names sequence ns"
  shows "check_sequence_strict_order tr sequence cnt [c] name =
           Inr (if \<exists>qs. cnt \<le> int (length qs) \<and>
                        sorted_wrt (\<lambda>p q. p + length sequence \<le> q) qs \<and>
                        (\<forall>q\<in>set qs. occurs_at sequence ns q)
                then 2 else 0)"
proof -
  let ?P = "\<lambda>qs. sorted_wrt (\<lambda>p q. p + length sequence \<le> q) qs \<and>
      (\<forall>q\<in>set qs. occurs_at sequence ns q)"
  have "str_count (join [c] ns) (join [c] sequence) = count_from ns sequence"
    using count_join_eq [OF assms(3,4,5,6)] join_plain_not_Nil [OF assms(3,4)]
    by (simp add: str_count_def)
  then have verdict: "check_sequence_strict_order tr sequence cnt [c] name =
      Inr (if cnt \<le> int (count_from ns sequence) then 2 else 0)"
    using assms(1,2) by (simp add: check_sequence_strict_order_def)
  have "cnt \<le> int (count_from ns sequence) \<longleftrightarrow> (\<exists>qs. cnt \<le> int (length qs) \<and> ?P qs)"
  proof
    assume le: "cnt \<le> int (count_from ns sequence)"
    from count_occurrences_exist [OF assms(3), of ns] obtain qs
      where "length qs = count_from ns sequence" "?P qs"
      by blast
    with le have "cnt \<le> int (length qs) \<and> ?P qs"
      by simp
    then show "\<exists>qs. cnt \<le> int (length qs) \<and> ?P qs" ..
  next
    assume "\<exists>qs. cnt \<le> int (length qs) \<and> ?P qs"
    then obtain qs where qs: "cnt \<le> int (length qs)" "?P qs"
      by blast
    from occurrences_le_count [OF assms(3), of qs ns] qs(2)
    have "length qs \<le> count_from ns sequence"
      by blast
    with qs(1) show "cnt \<le> int (count_from ns sequence)"
      by linarith
  qed
  with verdict show ?thesis
    by simp
qed

theorem strict_order_nonoverlapping_witness:
  "event_names (events (trace_of [named act_X, named act_A, named act_A, named act_A])) concept_name
     = Inr [act_X, act_A, act_A, act_A] \<and>
   1 \<le> int (length (events (trace_of [named act_X, named act_A, named act_A, named act_A]))) \<and>
   [act_A, act_A] \<noteq> [] \<and>
   plain_names 9247 [act_A, act_A] \<and>
   plain_names 9247 [act_X, act_A, act_A, act_A] \<and>
   exact_names [act_A, act_A] [act_X, act_A, act_A, act_A] \<and>
   check_sequence_strict_order (trace_of [named act_X, named act_A, named act_A, named act_A])
     [act_A, act_A] 1 [9247] concept_name = Inr 2 \<and>
   check_sequence_strict_order (trace_of [named act_X, named act_A, named act_A, named act_A])
     [act_A, act_A] 1 [9247] concept_name =
     Inr (if \<exists>qs. 1 \<le> int (length qs) \<and>
                  sorted_wrt (\<lambda>p q. p + length [act_A, act_A] \<le> q) qs \<and>
                  (\<forall>q\<in>set qs. occurs_at [act_A, act_A] [act_X, act_A, act_A, act_A] q)
          then 2 else 0)"
proof -
  have h1: "event_names (events (trace_of [named act_X, named act_A, named act_A, named act_A]))
      concept_name = Inr [act_X, act_A, act_A, act_A]"
    by (simp add: trace_of_def named_def)
  have h2: "1 \<le> int (length (events (trace_of [named act_X, named act_A, named act_A, named act_A])))"
    by (simp add: trace_of_def)
  have h3: "[act_A, act_A] \<noteq> []"
    by simp
  have h4: "plain_names 9247 [act_A, act_A]"
    by (simp add: plain_names_def example_defs)
  have h5: "plain_names 9247 [act_X, act_A, act_A, act_A]"
    by (simp add: plain_names_def example_defs)
  have h6: "exact_names [act_A, act_A] [act_X, act_A, act_A, act_A]"
    by (simp add: exact_names_def example_defs suffix_Cons prefix_Cons)
  have v: "check_sequence_strict_order (trace_of [named act_X, named act_A, named act_A, named act_A])
      [act_A, act_A] 1 [9247] concept_name = Inr 2"
    by (simp add: check_sequence_strict_order_def str_count_def count_from.simps example_defs)
  show ?thesis
    by (intro conjI h1 h2 h3 h4 h5 h6 v strict_order_nonoverlapping [OF h1 h2 h3 h4 h5 h6])
qed

end
